theory Spec2Isabelle
  imports Main "HOL-Library.Sublist"
begin

section \<open>Regular expressions as the script uses them\<close>

text \<open>
  The script \<^verbatim>\<open>fix_sqlx_pools.py\<close> rewrites Rust sources with six calls of
  \<^verbatim>\<open>re.sub\<close>. The patterns use literal characters, character sets, a greedy
  star over a set, a greedy optional group and two capturing groups; the templates use
  literal text and the group references \<^verbatim>\<open>\1\<close> and \<^verbatim>\<open>\2\<close>.

  Text is a \<^typ>\<open>string\<close> of UTF-8 code units: a character beyond ASCII is the two to
  four units of its encoding. Every character a pattern names is ASCII, and no unit of a
  character beyond ASCII belongs to a set or equals a literal of the patterns, so matching
  on the units is matching on the characters.
\<close>

datatype regex =
    Lit string
  | Cls "(char \<times> char) list"
  | Seq regex regex
  | Star regex
  | Opt regex
  | Grp nat regex

type_synonym groups = "nat \<Rightarrow> string option"

text \<open>A position of the matcher: the input still to read, and the groups captured so far.\<close>

type_synonym mstate = "string \<times> groups"

definition in_class :: "(char \<times> char) list \<Rightarrow> char \<Rightarrow> bool" where
  "in_class rs c =
     list_ex (\<lambda>r. (of_char (fst r) :: nat) \<le> of_char c \<and> (of_char c :: nat) \<le> of_char (snd r)) rs"

text \<open>
  The matcher backtracks as Python's does: \<open>matches r st\<close> lists every way \<open>r\<close> can
  match at the start of the input, in the order the engine tries them (a greedy operator
  tries the longer alternative first). The head of the list is the match the engine
  reports. An iteration of a star that reads nothing ends the star.
\<close>

primrec star_iter :: "(mstate \<Rightarrow> mstate list) \<Rightarrow> nat \<Rightarrow> mstate \<Rightarrow> mstate list" where
  "star_iter f 0 st = [st]"
| "star_iter f (Suc n) st =
     concat (map (\<lambda>st'. if length (fst st') < length (fst st) then star_iter f n st' else [])
                 (f st)) @ [st]"

primrec matches :: "regex \<Rightarrow> mstate \<Rightarrow> mstate list" where
  "matches (Lit w) st =
     (if prefix w (fst st) then [(drop (length w) (fst st), snd st)] else [])"
| "matches (Cls rs) st =
     (case fst st of
        [] \<Rightarrow> []
      | c # cs \<Rightarrow> if in_class rs c then [(cs, snd st)] else [])"
| "matches (Seq a b) st = concat (map (matches b) (matches a st))"
| "matches (Star a) st = star_iter (matches a) (length (fst st)) st"
| "matches (Opt a) st = matches a st @ [st]"
| "matches (Grp n a) st =
     map (\<lambda>st'. (fst st', (snd st')(n \<mapsto> take (length (fst st) - length (fst st')) (fst st))))
         (matches a st)"

text \<open>
  \<open>re_match r must_advance s\<close> is the engine's match of \<open>r\<close> at the start of \<open>s\<close>: the
  number of characters matched and the groups. With \<open>must_advance\<close> an empty match is
  refused, which is how \<^verbatim>\<open>re.sub\<close> searches right after an empty match.
\<close>

definition re_match :: "regex \<Rightarrow> bool \<Rightarrow> string \<Rightarrow> (nat \<times> groups) option" where
  "re_match r must_advance s =
     (case filter (\<lambda>st. if must_advance then length (fst st) < length s else True)
                  (matches r (s, Map.empty)) of
        [] \<Rightarrow> None
      | st # _ \<Rightarrow> Some (length s - length (fst st), snd st))"

datatype titem = TLit string | TGrp nat

text \<open>A group that took no part in the match expands to the empty string (Python 3.5 and later).\<close>

fun expand :: "titem list \<Rightarrow> groups \<Rightarrow> string" where
  "expand [] g = []"
| "expand (TLit w # t) g = w @ expand t g"
| "expand (TGrp n # t) g = (case g n of None \<Rightarrow> [] | Some w \<Rightarrow> w) @ expand t g"

lemma re_match_SomeD:
  assumes "re_match r adv s = Some (k, g)"
  shows "k \<le> length s" and "adv \<Longrightarrow> 0 < k"
proof -
  let ?P = "\<lambda>st:: mstate. if adv then length (fst st) < length s else True"
  from assms obtain st rest where f: "filter ?P (matches r (s, Map.empty)) = st # rest"
    and k: "k = length s - length (fst st)"
    by (auto simp: re_match_def split: list.splits)
  from k show "k \<le> length s" by simp
  from f have "st \<in> set (filter ?P (matches r (s, Map.empty)))" by simp
  then have "?P st" by simp
  then show "adv \<Longrightarrow> 0 < k" using k by simp
qed

text \<open>
  \<^verbatim>\<open>re.subn\<close>: scan from the left; where the pattern matches, emit the expanded
  template and go on behind the match; elsewhere copy one character. The count is the
  number of matches replaced. \<^verbatim>\<open>re.sub\<close> is its first component.
\<close>

function re_subn :: "regex \<Rightarrow> titem list \<Rightarrow> bool \<Rightarrow> string \<Rightarrow> string \<times> nat" where
  "re_subn r t adv s =
     (case re_match r adv s of
        Some (k, g) \<Rightarrow>
          (let (out, n) = re_subn r t (k = 0) (drop k s) in (expand t g @ out, Suc n))
      | None \<Rightarrow>
          (case s of
             [] \<Rightarrow> ([], 0)
           | c # cs \<Rightarrow> (let (out, n) = re_subn r t False cs in (c # out, n))))"
  by pat_completeness auto
termination
proof (relation "measure (\<lambda>(r, t, adv, s). 2 * length s + (if adv then 0 else 1))")
  show "wf (measure (\<lambda>(r, t, adv, s). 2 * length s + (if adv then 0 else 1)))" by simp
next
  fix r :: regex and t :: "titem list" and adv s x2 k g
  assume m: "re_match r adv s = Some x2" and x: "(k, g) = x2"
  from m x have m': "re_match r adv s = Some (k, g)" by simp
  have le: "k \<le> length s" and pos: "adv \<Longrightarrow> 0 < k"
    using re_match_SomeD[OF m'] by auto
  show "((r, t, k = 0, drop k s), (r, t, adv, s))
        \<in> measure (\<lambda>(r, t, adv, s). 2 * length s + (if adv then 0 else 1))"
    using le pos by (cases "k = 0") auto
next
  fix r :: regex and t :: "titem list" and adv :: bool and s :: string and c cs
  assume "s = c # cs"
  then show "((r, t, False, cs), (r, t, adv, s))
        \<in> measure (\<lambda>(r, t, adv, s). 2 * length s + (if adv then 0 else 1))"
    by simp
qed

declare re_subn.simps [simp del]

definition re_sub :: "regex \<Rightarrow> titem list \<Rightarrow> string \<Rightarrow> string" where
  "re_sub r t s = fst (re_subn r t False s)"

section \<open>The six substitutions of \<^verbatim>\<open>fix_pool_patterns\<close>\<close>

text \<open>
  The sets \<^verbatim>\<open>[a-zA-Z_]\<close> and \<^verbatim>\<open>[a-zA-Z0-9_]\<close>, and the patterns and
  templates in the order of the source. A backslash before a dot or a parenthesis makes
  it a literal character.
\<close>

definition ident_start :: "(char \<times> char) list" where
  "ident_start = [(CHR ''a'', CHR ''z''), (CHR ''A'', CHR ''Z''), (CHR ''_'', CHR ''_'')]"

definition ident_char :: "(char \<times> char) list" where
  "ident_char =
     [(CHR ''a'', CHR ''z''), (CHR ''A'', CHR ''Z''), (CHR ''0'', CHR ''9''), (CHR ''_'', CHR ''_'')]"

text \<open>\<^verbatim>\<open>\.execute\(pool\)\<close> and its three siblings, by the method's name.\<close>

definition method_pat :: "string \<Rightarrow> regex" where
  "method_pat m = Lit (''.'' @ m @ ''(pool)'')"

definition method_tpl :: "string \<Rightarrow> titem list" where
  "method_tpl m = [TLit (''.'' @ m @ ''(&*pool)'')]"

text \<open>
  \<^verbatim>\<open>([a-zA-Z_][a-zA-Z0-9_]*::)?([a-zA-Z_][a-zA-Z0-9_]*)\(pool,\<close> with the template
  \<^verbatim>\<open>\1\2(&*pool,\<close>, and the same with a closing parenthesis for the comma.
\<close>

definition call_pat :: "string \<Rightarrow> regex" where
  "call_pat close =
     Seq (Opt (Grp 1 (Seq (Cls ident_start) (Seq (Star (Cls ident_char)) (Lit ''::'')))))
         (Seq (Grp 2 (Seq (Cls ident_start) (Star (Cls ident_char))))
              (Lit (''(pool'' @ close)))"

definition call_tpl :: "string \<Rightarrow> titem list" where
  "call_tpl close = [TGrp 1, TGrp 2, TLit (''(&*pool'' @ close)]"

text \<open>Lines 21 to 28 of the source: the content after the six substitutions.\<close>

definition substitute :: "string \<Rightarrow> string" where
  "substitute content =
     (let content = re_sub (method_pat ''execute'') (method_tpl ''execute'') content;
          content = re_sub (method_pat ''fetch_one'') (method_tpl ''fetch_one'') content;
          content = re_sub (method_pat ''fetch_all'') (method_tpl ''fetch_all'') content;
          content = re_sub (method_pat ''fetch_optional'') (method_tpl ''fetch_optional'') content;
          content = re_sub (call_pat '','') (call_tpl '','') content;
          content = re_sub (call_pat '')'') (call_tpl '')'') content
      in content)"

text \<open>
  The same six substitutions as a list of rules, for statements about their order, and
  the rule set applied the way the specification words it: each rule in turn, on the
  content the rules before it produced.
\<close>

type_synonym rule = "regex \<times> titem list"

definition rules :: "rule list" where
  "rules =
     [(method_pat ''execute'', method_tpl ''execute''),
      (method_pat ''fetch_one'', method_tpl ''fetch_one''),
      (method_pat ''fetch_all'', method_tpl ''fetch_all''),
      (method_pat ''fetch_optional'', method_tpl ''fetch_optional''),
      (call_pat '','', call_tpl '',''),
      (call_pat '')'', call_tpl '')'')]"

fun apply_rules :: "rule list \<Rightarrow> string \<Rightarrow> string" where
  "apply_rules [] content = content"
| "apply_rules (r # rs) content = apply_rules rs (re_sub (fst r) (snd r) content)"

text \<open>
  \<^verbatim>\<open>re.search\<close>, to say that a pattern matches somewhere in a text: the first
  position where it matches, with the length of the match.
\<close>

fun re_search :: "regex \<Rightarrow> string \<Rightarrow> (nat \<times> nat) option" where
  "re_search r [] = map_option (\<lambda>m. (0, fst m)) (re_match r False [])"
| "re_search r (c # cs) =
     (case re_match r False (c # cs) of
        Some m \<Rightarrow> Some (0, fst m)
      | None \<Rightarrow> map_option (\<lambda>p. (Suc (fst p), snd p)) (re_search r cs))"

section \<open>Files, and the two functions of the script\<close>

text \<open>
  A file is seen through Python's text layer: \<open>contents\<close> is what \<^verbatim>\<open>f.read()\<close> returns
  and what \<^verbatim>\<open>f.write\<close> is given. The ways the operating system can refuse are part
  of the file: \<open>read_error\<close> is raised by opening or reading it, \<open>open_error\<close> by opening
  it for writing (the file is then untouched), and \<open>write_error = Some (n, e)\<close> says that
  a write raises \<open>e\<close> once \<open>n\<close> units of the encoded text have reached the file. \<open>mtime\<close>
  counts the times the file was opened for writing, which truncates it.
\<close>

type_synonym path = string

datatype exn =
    FileNotFoundError | PermissionError | IsADirectoryError | UnicodeDecodeError | OSError

record entry =
  contents :: string
  mtime :: nat
  read_error :: "exn option"
  open_error :: "exn option"
  write_error :: "(nat \<times> exn) option"

text \<open>The directory entries in the order a scan lists them, and the directories.\<close>

record filesystem =
  files :: "(path \<times> entry) list"
  dirs :: "path list"

datatype line =
    Fixed path
  | Error_processing path exn
  | Source_directory_not_found path
  | Found_rust_files nat
  | Fixed_files nat

definition read_text :: "filesystem \<Rightarrow> path \<Rightarrow> exn + string" where
  "read_text fs p =
     (case map_of (files fs) p of
        None \<Rightarrow> Inl FileNotFoundError
      | Some f \<Rightarrow> (case read_error f of Some e \<Rightarrow> Inl e | None \<Rightarrow> Inr (contents f)))"

fun update_file :: "path \<Rightarrow> entry \<Rightarrow> (path \<times> entry) list \<Rightarrow> (path \<times> entry) list" where
  "update_file p f [] = [(p, f)]"
| "update_file p f (e # es) = (if fst e = p then (p, f) # es else e # update_file p f es)"

text \<open>
  Whether a sequence of units decodes as UTF-8, as Python's strict decoder has it: the
  first unit of a character gives its length, the units after it are continuation units,
  and the second unit is restricted so that no overlong form, no surrogate and nothing
  beyond U+10FFFF passes. A write that is cut short can end inside a character; the file
  then no longer decodes and reading it raises \<^verbatim>\<open>UnicodeDecodeError\<close>.
\<close>

definition utf8_len :: "char \<Rightarrow> nat" where
  "utf8_len a =
     (let x = (of_char a :: nat) in
      if x < 0x80 then 1
      else if 0xC2 \<le> x \<and> x \<le> 0xDF then 2
      else if 0xE0 \<le> x \<and> x \<le> 0xEF then 3
      else if 0xF0 \<le> x \<and> x \<le> 0xF4 then 4
      else 0)"

definition utf8_second :: "char \<Rightarrow> nat \<times> nat" where
  "utf8_second a =
     (let x = (of_char a :: nat) in
      if x = 0xE0 then (0xA0, 0xBF)
      else if x = 0xED then (0x80, 0x9F)
      else if x = 0xF0 then (0x90, 0xBF)
      else if x = 0xF4 then (0x80, 0x8F)
      else (0x80, 0xBF))"

definition utf8_tail_ok :: "char \<Rightarrow> string \<Rightarrow> bool" where
  "utf8_tail_ok a t =
     (list_all (\<lambda>b. 0x80 \<le> (of_char b :: nat) \<and> (of_char b :: nat) \<le> 0xBF) t
      \<and> (case t of
            [] \<Rightarrow> True
          | b # _ \<Rightarrow> fst (utf8_second a) \<le> of_char b \<and> of_char b \<le> snd (utf8_second a)))"

fun utf8_valid :: "string \<Rightarrow> bool" where
  "utf8_valid [] = True"
| "utf8_valid (a # s) =
     (0 < utf8_len a \<and> utf8_len a - 1 \<le> length s
      \<and> utf8_tail_ok a (take (utf8_len a - 1) s)
      \<and> utf8_valid (drop (utf8_len a - 1) s))"

text \<open>
  \<^verbatim>\<open>with open(file_path, 'w', encoding='utf-8') as f: f.write(content)\<close>: opening
  truncates the file before anything is written; the result is the file system left
  behind and the exception raised, if any. After a write that failed the file holds the
  units that reached it, and it can be read again only if they decode. A path with no
  entry gets a new file (the script only writes a file it has just read).
\<close>

definition write_text :: "filesystem \<Rightarrow> path \<Rightarrow> string \<Rightarrow> filesystem \<times> exn option" where
  "write_text fs p content =
     (case map_of (files fs) p of
        None \<Rightarrow>
          (fs\<lparr>files := update_file p
               \<lparr>contents = content, mtime = 1, read_error = None, open_error = None,
                write_error = None\<rparr> (files fs)\<rparr>, None)
      | Some f \<Rightarrow>
          (case open_error f of
             Some e \<Rightarrow> (fs, Some e)
           | None \<Rightarrow>
               (case write_error f of
                  Some (n, e) \<Rightarrow>
                    (fs\<lparr>files := update_file p
                          (f\<lparr>contents := take n content, mtime := Suc (mtime f),
                             read_error :=
                               (case read_error f of
                                  Some r \<Rightarrow> Some r
                                | None \<Rightarrow>
                                    if utf8_valid (take n content) then None
                                    else Some UnicodeDecodeError)\<rparr>)
                          (files fs)\<rparr>, Some e)
                | None \<Rightarrow>
                    (fs\<lparr>files := update_file p (f\<lparr>contents := content, mtime := Suc (mtime f)\<rparr>)
                                  (files fs)\<rparr>, None))))"

text \<open>
  \<^verbatim>\<open>fix_pool_patterns(file_path)\<close>: the value returned, the file system afterwards
  and the lines printed. Every exception is caught by the one handler, which prints and
  returns \<^verbatim>\<open>False\<close>.
\<close>

definition fix_pool_patterns :: "filesystem \<Rightarrow> path \<Rightarrow> bool \<times> filesystem \<times> line list" where
  "fix_pool_patterns fs file_path =
     (case read_text fs file_path of
        Inl e \<Rightarrow> (False, fs, [Error_processing file_path e])
      | Inr original_content \<Rightarrow>
          (let content = substitute original_content in
           if content \<noteq> original_content
           then (case write_text fs file_path content of
                   (fs', Some e) \<Rightarrow> (False, fs', [Error_processing file_path e])
                 | (fs', None) \<Rightarrow> (True, fs', [Fixed file_path]))
           else (False, fs, [])))"

definition src_dir :: path where
  "src_dir = ''C:/Users/jjgor/JSG-StoryWeaver/src-tauri/src''"

definition path_exists :: "filesystem \<Rightarrow> path \<Rightarrow> bool" where
  "path_exists fs p = (p \<in> set (dirs fs) \<or> p \<in> set (map fst (files fs)))"

text \<open>
  \<^verbatim>\<open>list(src_dir.rglob("*.rs"))\<close>: the entries below the directory whose name ends in
  \<^verbatim>\<open>.rs\<close>, in the order the scan yields them, taken once before the loop starts. An
  entry that is a directory of such a name is listed too; opening it raises, which its
  \<open>read_error\<close> records.
\<close>

definition rglob_rs :: "filesystem \<Rightarrow> path \<Rightarrow> path list" where
  "rglob_rs fs root =
     filter (\<lambda>p. prefix (root @ ''/'') p \<and> suffix ''.rs'' p) (map fst (files fs))"

text \<open>The loop of \<^verbatim>\<open>main\<close> over the files, with the count of fixed files so far.\<close>

fun process_files :: "filesystem \<Rightarrow> path list \<Rightarrow> nat \<Rightarrow> nat \<times> filesystem \<times> line list" where
  "process_files fs [] fixed_count = (fixed_count, fs, [])"
| "process_files fs (file_path # rest) fixed_count =
     (case fix_pool_patterns fs file_path of
        (fixed, fs', out) \<Rightarrow>
          (case process_files fs' rest (if fixed then fixed_count + 1 else fixed_count) of
             (n, fs'', out') \<Rightarrow> (n, fs'', out @ out')))"

definition main :: "filesystem \<Rightarrow> filesystem \<times> line list" where
  "main fs =
     (if \<not> path_exists fs src_dir
      then (fs, [Source_directory_not_found src_dir])
      else
        (let rust_files = rglob_rs fs src_dir in
         case process_files fs rust_files 0 of
           (fixed_count, fs', out) \<Rightarrow>
             (fs', [Found_rust_files (length rust_files)] @ out @ [Fixed_files fixed_count])))"

text \<open>
  Lines 57 and 58: run as a script, the file calls \<^verbatim>\<open>main()\<close> and ends. \<^verbatim>\<open>main\<close>
  raises nothing and calls no exit, so the process ends with exit status 0 whatever was
  printed.
\<close>

definition run_script :: "filesystem \<Rightarrow> nat \<times> filesystem \<times> line list" where
  "run_script fs = (case main fs of (fs', out) \<Rightarrow> (0, fs', out))"

section \<open>The substitutions in one pass\<close>

text \<open>
  Every substitution puts \<^verbatim>\<open>&*\<close> behind an opening parenthesis and changes nothing
  else. \<open>mark closers ok s\<close> does that in one pass from the left: \<open>ok\<close> holds when the
  characters just read are a run of name characters with a letter or an underscore among
  them, and the parenthesis is marked when \<^verbatim>\<open>pool\<close> and one of the \<open>closers\<close>
  follow it. The theorems below show that the substitutions of the source compute it.
\<close>

definition flag_next :: "bool \<Rightarrow> char \<Rightarrow> bool" where
  "flag_next ok c = (in_class ident_char c \<and> (ok \<or> in_class ident_start c))"

fun mark :: "string list \<Rightarrow> bool \<Rightarrow> string \<Rightarrow> string" where
  "mark closers ok [] = []"
| "mark closers ok (c # cs) =
     (if c = CHR ''('' \<and> ok \<and> list_ex (\<lambda>cl. prefix (''pool'' @ cl) cs) closers
      then ''(&*'' else [c])
     @ mark closers (flag_next ok c) cs"

abbreviation namec :: "char \<Rightarrow> bool" where
  "namec \<equiv> in_class ident_char"

abbreviation closers2 :: "string list" where
  "closers2 \<equiv> ['','', '')'']"

section \<open>Example file systems\<close>

text \<open>The concrete file systems at which the theorems below are instantiated.\<close>

definition untouched_fs :: filesystem where
  "untouched_fs =
     \<lparr>files = [(''src/lib.rs'',
                \<lparr>contents = ''foo(mypool)'', mtime = 0, read_error = None,
                 open_error = None, write_error = None\<rparr>)],
      dirs = [''src'']\<rparr>"

definition scenario_fs :: filesystem where
  "scenario_fs =
     \<lparr>files = [(''src/db.rs'',
                \<lparr>contents = ''.execute(pool)\<newline>.fetch_one(pool)\<newline>'', mtime = 0,
                 read_error = None, open_error = None, write_error = None\<rparr>)],
      dirs = [''src'']\<rparr>"

definition failing_write_fs :: filesystem where
  "failing_write_fs =
     \<lparr>files = [(''src/a.rs'',
                \<lparr>contents = ''f(pool)'', mtime = 0, read_error = None,
                 open_error = None, write_error = Some (2, OSError)\<rparr>),
               (''src/b.rs'',
                \<lparr>contents = ''g(pool)'', mtime = 0, read_error = None,
                 open_error = Some PermissionError, write_error = None\<rparr>),
               (''src/c.rs'',
                \<lparr>contents = [CHR 0xC3, CHR 0xA9] @ '' h(pool)'', mtime = 0, read_error = None,
                 open_error = None, write_error = Some (1, OSError)\<rparr>)],
      dirs = [''src'']\<rparr>"

definition unreadable_fs :: filesystem where
  "unreadable_fs =
     \<lparr>files = [(src_dir @ ''/a.rs'',
                \<lparr>contents = ''f(pool)'', mtime = 0, read_error = Some PermissionError,
                 open_error = None, write_error = None\<rparr>),
               (src_dir @ ''/b.rs'',
                \<lparr>contents = ''g(mypool)'', mtime = 0, read_error = None,
                 open_error = None, write_error = None\<rparr>),
               (src_dir @ ''/c.rs'',
                \<lparr>contents = ''h(pool)'', mtime = 0, read_error = None,
                 open_error = None, write_error = None\<rparr>)],
      dirs = [src_dir]\<rparr>"

definition rootless_fs :: filesystem where
  "rootless_fs = \<lparr>files = [(''src/main.rs'',
                \<lparr>contents = ''f(pool)'', mtime = 0, read_error = None,
                 open_error = None, write_error = None\<rparr>)], dirs = [''src'']\<rparr>"

definition bare_root_fs :: filesystem where
  "bare_root_fs = \<lparr>files = [], dirs = [src_dir]\<rparr>"

section \<open>What the call patterns match\<close>

lemma ident_start_char: "in_class ident_start c \<Longrightarrow> in_class ident_char c"
  by (auto simp: in_class_def ident_start_def ident_char_def)

lemma ident_char_not_punct:
  "in_class ident_char c \<Longrightarrow>
     c \<noteq> CHR ''('' \<and> c \<noteq> CHR '':'' \<and> c \<noteq> CHR '','' \<and> c \<noteq> CHR '')'' \<and> c \<noteq> CHR ''.''
       \<and> c \<noteq> CHR ''&'' \<and> c \<noteq> CHR ''*''"
  by (auto simp: in_class_def ident_char_def)

lemma star_cls_then:
  assumes rej: "\<And>c cs g. in_class rs c \<Longrightarrow> K (c # cs, g) = []"
  shows "length s \<le> n \<Longrightarrow>
         concat (map K (star_iter (matches (Cls rs)) n (s, g))) = K (dropWhile (in_class rs) s, g)"
proof (induction s arbitrary: n)
  case Nil
  then show ?case by (cases n) simp_all
next
  case (Cons c cs)
  then obtain m where n: "n = Suc m" and le: "length cs \<le> m" by (cases n) auto
  show ?case using Cons.IH[OF le] rej by (simp add: n)
qed

text \<open>The second group, a name, followed by literal text that no name character starts.\<close>

lemma matches_name_lit:
  assumes w: "w \<noteq> []" "\<not> namec (hd w)"
  shows "matches (Seq (Grp n (Seq (Cls ident_start) (Star (Cls ident_char)))) (Lit w)) (s, g) =
     (case s of [] \<Rightarrow> []
      | c # cs \<Rightarrow>
          if in_class ident_start c \<and> prefix w (dropWhile namec cs)
          then [(drop (length w) (dropWhile namec cs), g(n \<mapsto> c # takeWhile namec cs))]
          else [])"
proof (cases s)
  case Nil
  then show ?thesis by simp
next
  case (Cons c cs)
  let ?K = "\<lambda>st'. matches (Lit w) (fst st', (snd st')(n \<mapsto> take (length s - length (fst st')) s))"
  have rej: "\<And>d ds. namec d \<Longrightarrow> \<not> prefix w (d # ds)"
    using w by (cases w) auto
  have len: "length (c # cs) - length (dropWhile namec cs) = Suc (length (takeWhile namec cs))"
    by (metis (no_types) Suc_diff_le add_diff_cancel_right' length_Cons length_append
        length_dropWhile_le takeWhile_dropWhile_id)
  show ?thesis
  proof (cases "in_class ident_start c")
    case False
    then show ?thesis using Cons by simp
  next
    case True
    have "matches (Seq (Grp n (Seq (Cls ident_start) (Star (Cls ident_char)))) (Lit w)) (s, g)
          = concat (map ?K (star_iter (matches (Cls ident_char)) (length cs) (cs, g)))"
      using True Cons by (simp add: comp_def)
    also have "\<dots> = ?K (dropWhile namec cs, g)"
      by (rule star_cls_then[where K = ?K and rs = ident_char]) (simp_all add: rej)
    finally show ?thesis using True Cons len by (simp add: takeWhile_eq_take[symmetric])
  qed
qed

text \<open>The first group: a name and two colons.\<close>

lemma matches_qualifier:
  "matches (Grp n (Seq (Cls ident_start) (Seq (Star (Cls ident_char)) (Lit ''::'')))) (s, g) =
     (case s of [] \<Rightarrow> []
      | c # cs \<Rightarrow>
          if in_class ident_start c \<and> prefix ''::'' (dropWhile namec cs)
          then [(drop 2 (dropWhile namec cs), g(n \<mapsto> c # takeWhile namec cs @ ''::''))]
          else [])"
proof (cases s)
  case Nil
  then show ?thesis by simp
next
  case (Cons c cs)
  have rej: "\<And>d ds. namec d \<Longrightarrow> \<not> prefix ''::'' (d # ds)"
    using ident_char_not_punct by auto
  have star: "concat (map (matches (Lit ''::'')) (star_iter (matches (Cls ident_char)) (length cs) (cs, g)))
      = matches (Lit ''::'') (dropWhile namec cs, g)"
    by (rule star_cls_then[where K = "matches (Lit ''::'')" and rs = ident_char])
       (auto dest: ident_char_not_punct)
  show ?thesis
  proof (cases "in_class ident_start c \<and> prefix ''::'' (dropWhile namec cs)")
    case False
    then show ?thesis using Cons star by auto
  next
    case True
    then obtain rest where d: "dropWhile namec cs = ''::'' @ rest" by (auto simp: prefix_def)
    have cs: "cs = takeWhile namec cs @ ''::'' @ rest"
      using takeWhile_dropWhile_id[of namec cs] d by simp
    have "length (c # cs) - length rest = length (c # takeWhile namec cs @ ''::'')"
      by (subst cs) simp
    moreover have "take (length (c # takeWhile namec cs @ ''::'')) (c # cs) = c # takeWhile namec cs @ ''::''"
      by (subst (2) cs) simp
    ultimately show ?thesis using True Cons star d by simp
  qed
qed

lemma flag_run: "list_all namec run \<Longrightarrow> foldl flag_next True run"
  by (induction run) (simp_all add: flag_next_def)

lemma flag_name: "in_class ident_start c \<Longrightarrow> list_all namec run \<Longrightarrow> foldl flag_next ok (q @ c # run)"
  by (simp add: flag_next_def ident_start_char flag_run)

lemma takeWhile_all: "list_all P (takeWhile P xs)"
  by (induction xs) simp_all

lemma ic_no_paren: "list_all namec run \<Longrightarrow> CHR ''('' \<notin> set run"
  using ident_char_not_punct by (auto simp: list_all_iff)

lemma call_matches_shape:
  assumes "(rest, g') \<in> set (matches (call_pat cl) (s, Map.empty))"
  shows "\<exists>pre. s = pre @ ''(pool'' @ cl @ rest \<and> expand (call_tpl cl) g' = pre @ ''(&*pool'' @ cl
           \<and> CHR ''('' \<notin> set pre \<and> (\<forall>ok. foldl flag_next ok pre)"
proof -
  let ?w = "''(pool'' @ cl"
  let ?B = "Seq (Grp 2 (Seq (Cls ident_start) (Star (Cls ident_char)))) (Lit ?w)"
  have w: "?w \<noteq> []" "\<not> namec (hd ?w)" using ident_char_not_punct by auto
  note B = matches_name_lit[OF w, of 2]
  have name: "\<exists>run. t = c # run @ ?w @ rest \<and> h' = h(2 \<mapsto> c # run) \<and> in_class ident_start c \<and> list_all namec run"
    if "(rest, h') \<in> set (matches ?B (t, h))" "t = c # cs" for t h h' c cs
  proof -
    from that(1) have "(rest, h') \<in> set (case t of [] \<Rightarrow> []
      | c # cs \<Rightarrow>
          if in_class ident_start c \<and> prefix ?w (dropWhile namec cs)
          then [(drop (length ?w) (dropWhile namec cs), h(2 \<mapsto> c # takeWhile namec cs))]
          else [])" unfolding B .
    with that(2) have a: "in_class ident_start c" "prefix ?w (dropWhile namec cs)"
      and r: "rest = drop (length ?w) (dropWhile namec cs)" and h: "h' = h(2 \<mapsto> c # takeWhile namec cs)"
      by (auto split: if_splits)
    from a r have "dropWhile namec cs = ?w @ rest" by (auto simp: prefix_def)
    then have "cs = takeWhile namec cs @ ?w @ rest"
      using takeWhile_dropWhile_id[of namec cs] by simp
    then show ?thesis using a h that takeWhile_all[of namec cs] by blast
  qed
  from assms have "(rest, g') \<in> set (concat (map (matches ?B) (matches (Grp 1 (Seq (Cls ident_start) (Seq (Star (Cls ident_char)) (Lit ''::'')))) (s, Map.empty))))
      \<or> (rest, g') \<in> set (matches ?B (s, Map.empty))"
    by (simp add: call_pat_def)
  then show ?thesis
  proof
    assume "(rest, g') \<in> set (matches ?B (s, Map.empty))"
    moreover from this obtain c cs where s: "s = c # cs" unfolding B by (cases s) auto
    ultimately obtain run where "s = c # run @ ?w @ rest" "g' = [2 \<mapsto> c # run]"
       "in_class ident_start c" "list_all namec run"
      using name by blast
    then show ?thesis
      using flag_name[of c run _ "[]"] ic_no_paren[of run] ident_char_not_punct[of c] ident_start_char[of c]
      by (intro exI[of _ "c # run"]) (auto simp: call_tpl_def)
  next
    assume "(rest, g') \<in> set (concat (map (matches ?B) (matches (Grp 1 (Seq (Cls ident_start) (Seq (Star (Cls ident_char)) (Lit ''::'')))) (s, Map.empty))))"
    then obtain st where st: "st \<in> set (matches (Grp 1 (Seq (Cls ident_start) (Seq (Star (Cls ident_char)) (Lit ''::'')))) (s, Map.empty))"
      and m0: "(rest, g') \<in> set (matches ?B st)"
      by (auto simp del: matches.simps)
    from st obtain c cs where s: "s = c # cs" and c: "in_class ident_start c"
      and p: "prefix ''::'' (dropWhile namec cs)"
      and st': "st = (drop 2 (dropWhile namec cs), [1 \<mapsto> c # takeWhile namec cs @ ''::''])"
      unfolding matches_qualifier by (cases s) (auto split: if_splits)
    from m0 st' have m: "(rest, g') \<in> set (matches ?B (drop 2 (dropWhile namec cs), [1 \<mapsto> c # takeWhile namec cs @ ''::'']))"
      by simp
    let ?t = "drop 2 (dropWhile namec cs)"
    from p have d: "dropWhile namec cs = ''::'' @ ?t" by (auto simp: prefix_def)
    have cs: "cs = takeWhile namec cs @ ''::'' @ ?t"
      using takeWhile_dropWhile_id[of namec cs] d by simp
    from m obtain e es where t: "?t = e # es" unfolding B by (cases ?t) auto
    from name[OF m t] obtain run where r: "?t = e # run @ ?w @ rest"
       "g' = [1 \<mapsto> c # takeWhile namec cs @ ''::'', 2 \<mapsto> e # run]"
       "in_class ident_start e" "list_all namec run" by blast
    let ?q = "c # takeWhile namec cs @ ''::''"
    have "s = (?q @ e # run) @ ''(pool'' @ cl @ rest" using s cs r(1) by simp
    moreover have "expand (call_tpl cl) g' = (?q @ e # run) @ ''(&*pool'' @ cl"
      using r(2) by (simp add: call_tpl_def)
    moreover have "CHR ''('' \<notin> set (?q @ e # run)"
      using ic_no_paren[of run] ic_no_paren[OF takeWhile_all[of namec cs]] r(3,4) c
        ident_char_not_punct[of c] ident_start_char[of c] ident_char_not_punct[of e] ident_start_char[of e]
      by auto
    moreover have "\<forall>ok. foldl flag_next ok (?q @ e # run)"
      using flag_name[OF r(3,4)] by blast
    ultimately show ?thesis by blast
  qed
qed

lemma matches_opt_seq:
  "matches (Seq (Opt a) b) st = concat (map (matches b) (matches a st)) @ matches b st"
  by simp

lemma call_match_Some:
  assumes "re_match (call_pat cl) False s = Some (k, g)"
  shows "\<exists>pre. s = pre @ ''(pool'' @ cl @ drop k s \<and> k = length pre + 5 + length cl
           \<and> expand (call_tpl cl) g = pre @ ''(&*pool'' @ cl
           \<and> CHR ''('' \<notin> set pre \<and> (\<forall>ok. foldl flag_next ok pre)"
proof -
  from assms obtain rest l where l: "matches (call_pat cl) (s, Map.empty) = (rest, g) # l"
    and k: "k = length s - length rest"
    by (auto simp: re_match_def split: list.splits)
  then have "(rest, g) \<in> set (matches (call_pat cl) (s, Map.empty))" by simp
  from call_matches_shape[OF this] obtain pre where pre: "s = pre @ ''(pool'' @ cl @ rest"
    "expand (call_tpl cl) g = pre @ ''(&*pool'' @ cl" "CHR ''('' \<notin> set pre" "\<forall>ok. foldl flag_next ok pre"
    by blast
  have k': "k = length pre + 5 + length cl" by (subst k, subst pre(1)) simp
  have "drop k s = rest" by (subst pre(1)) (simp add: k' eval_nat_numeral)
  with pre k' show ?thesis by auto
qed

lemma call_match_None:
  assumes "re_match (call_pat cl) False (c # cs) = None" and "in_class ident_start c"
  shows "\<not> prefix (''(pool'' @ cl) (dropWhile namec cs)"
proof
  assume p: "prefix (''(pool'' @ cl) (dropWhile namec cs)"
  let ?w = "''(pool'' @ cl"
  let ?B = "Seq (Grp 2 (Seq (Cls ident_start) (Star (Cls ident_char)))) (Lit ?w)"
  have w: "?w \<noteq> []" "\<not> namec (hd ?w)" using ident_char_not_punct by auto
  have "matches ?B (c # cs, Map.empty) \<noteq> []"
    unfolding matches_name_lit[OF w, of 2] using p assms(2) by simp
  then have "matches (call_pat cl) (c # cs, Map.empty) \<noteq> []"
    unfolding call_pat_def matches_opt_seq by (simp del: matches.simps)
  with assms(1) show False by (auto simp: re_match_def split: list.splits)
qed

lemma mark_skip:
  "CHR ''('' \<notin> set w \<Longrightarrow> mark cls ok (w @ t) = w @ mark cls (foldl flag_next ok w) t"
  by (induction w arbitrary: ok) auto

lemma mark_pool:
  "cl = '','' \<or> cl = '')'' \<Longrightarrow> mark cls ok (''pool'' @ cl @ t) = ''pool'' @ cl @ mark cls False t"
  by (auto simp: flag_next_def in_class_def ident_char_def ident_start_def)

lemma mark_flag_irrelevant:
  "\<not> prefix (''(pool'' @ cl) (dropWhile namec cs) \<Longrightarrow> mark [cl] True cs = mark [cl] False cs"
proof (induction cs)
  case Nil
  then show ?case by simp
next
  case (Cons d ds)
  show ?case
  proof (cases "namec d")
    case True
    then have "d \<noteq> CHR ''(''" using ident_char_not_punct by blast
    then show ?thesis using Cons True by (cases "in_class ident_start d") (simp_all add: flag_next_def)
  next
    case False
    then show ?thesis using Cons.prems by (simp add: flag_next_def)
  qed
qed

lemma re_subn_Nil:
  "re_match r adv [] = None \<Longrightarrow> re_subn r t adv [] = ([], 0)"
  by (subst re_subn.simps) simp

lemma re_subn_Cons:
  "re_match r adv (c # cs) = None \<Longrightarrow>
   re_subn r t adv (c # cs) = (c # fst (re_subn r t False cs), snd (re_subn r t False cs))"
  by (subst re_subn.simps) (simp add: case_prod_beta)

lemma re_subn_Some:
  "re_match r adv s = Some (k, g) \<Longrightarrow>
   re_subn r t adv s =
     (expand t g @ fst (re_subn r t (k = 0) (drop k s)), Suc (snd (re_subn r t (k = 0) (drop k s))))"
  by (subst re_subn.simps) (simp add: case_prod_beta)

lemma call_sub_mark:
  assumes cl: "cl = '','' \<or> cl = '')''"
  shows "fst (re_subn (call_pat cl) (call_tpl cl) False s) = mark [cl] False s"
proof (induction s rule: length_induct)
  case (1 s)
  show ?case
  proof (cases "re_match (call_pat cl) False s")
    case None
    show ?thesis
    proof (cases s)
      case Nil
      then show ?thesis using None by (simp add: re_subn_Nil)
    next
      case (Cons c cs)
      have IH: "fst (re_subn (call_pat cl) (call_tpl cl) False cs) = mark [cl] False cs"
        using 1 Cons by simp
      have step: "fst (re_subn (call_pat cl) (call_tpl cl) False s)
                  = c # fst (re_subn (call_pat cl) (call_tpl cl) False cs)"
        using None unfolding Cons by (simp add: re_subn_Cons)
      have "mark [cl] (flag_next False c) cs = mark [cl] False cs"
      proof (cases "in_class ident_start c")
        case True
        then have "flag_next False c" by (simp add: flag_next_def ident_start_char)
        moreover have "mark [cl] True cs = mark [cl] False cs"
          using call_match_None[OF None[unfolded Cons] True] by (rule mark_flag_irrelevant)
        ultimately show ?thesis by simp
      next
        case False
        then show ?thesis by (simp add: flag_next_def)
      qed
      then show ?thesis using step IH Cons by simp
    qed
  next
    case (Some kg)
    obtain k g where kg: "kg = (k, g)" by (cases kg)
    from call_match_Some[OF Some[unfolded kg]] obtain pre where
      s: "s = pre @ ''(pool'' @ cl @ drop k s" and k: "k = length pre + 5 + length cl"
      and e: "expand (call_tpl cl) g = pre @ ''(&*pool'' @ cl"
      and np: "CHR ''('' \<notin> set pre" and fl: "\<forall>ok. foldl flag_next ok pre"
      by blast
    let ?rest = "drop k s"
    have "length ?rest < length s" using k by (subst (2) s) simp
    then have IH: "fst (re_subn (call_pat cl) (call_tpl cl) False ?rest) = mark [cl] False ?rest"
      using 1 by simp
    have k0: "(k = 0) = False" using k by simp
    have step: "fst (re_subn (call_pat cl) (call_tpl cl) False s)
                = expand (call_tpl cl) g @ fst (re_subn (call_pat cl) (call_tpl cl) False ?rest)"
      using re_subn_Some[OF Some[unfolded kg]] k0 by simp
    have "mark [cl] False s = mark [cl] False (pre @ ''(pool'' @ cl @ ?rest)"
      using s by simp
    also have "\<dots> = pre @ mark [cl] True (''(pool'' @ cl @ ?rest)"
      using mark_skip[OF np] fl by simp
    also have "\<dots> = pre @ ''(&*'' @ mark [cl] False (''pool'' @ cl @ ?rest)"
      by (simp add: flag_next_def in_class_def ident_char_def)
    also have "\<dots> = pre @ ''(&*'' @ ''pool'' @ cl @ mark [cl] False ?rest"
      using mark_pool[OF cl] by simp
    finally show ?thesis using step e IH by simp
  qed
qed

lemma mark_prefix:
  "CHR ''('' \<notin> set v \<Longrightarrow> prefix v (mark cls ok s) \<longleftrightarrow> prefix v s"
proof (induction v arbitrary: s ok)
  case Nil
  then show ?case by simp
next
  case (Cons x v)
  then show ?case by (cases s) auto
qed

lemma mark_mark:
  assumes "\<forall>cl \<in> set B. CHR ''('' \<notin> set cl"
  shows "mark B ok (mark A ok s) = mark (A @ B) ok s"
proof (induction s arbitrary: ok)
  case Nil
  then show ?case by simp
next
  case (Cons c cs)
  let ?fire = "\<lambda>C. c = CHR ''('' \<and> ok \<and> list_ex (\<lambda>cl. prefix (''pool'' @ cl) cs) C"
  have pre: "list_ex (\<lambda>cl. prefix (''pool'' @ cl) (mark A f cs)) B
             \<longleftrightarrow> list_ex (\<lambda>cl. prefix (''pool'' @ cl) cs) B" for f
    using assms mark_prefix[of "''pool'' @ _" A f cs] by (auto simp: list_ex_iff)
  have fl: "flag_next ok CHR ''('' = False" "flag_next False CHR ''&'' = False"
     "flag_next False CHR ''*'' = False"
    by (simp_all add: flag_next_def in_class_def ident_char_def)
  show ?case
  proof (cases "?fire A")
    case True
    then show ?thesis using Cons[of False] fl by (auto simp: list_ex_iff)
  next
    case False
    then show ?thesis using Cons[of "flag_next ok c"] pre[of "flag_next ok c"] by auto
  qed
qed

lemma lit_match:
  "w \<noteq> [] \<Longrightarrow> re_match (Lit w) adv s = (if prefix w s then Some (length w, Map.empty) else None)"
  by (auto simp: re_match_def prefix_def)

lemma lit_sub_prefix:
  assumes "d \<notin> set v"
  shows "prefix v (fst (re_subn (Lit (d # w)) [TLit (d # rep)] False s)) \<longleftrightarrow> prefix v s"
  using assms
proof (induction v arbitrary: s)
  case Nil
  then show ?case by simp
next
  case (Cons x v)
  show ?case
  proof (cases "prefix (d # w) s")
    case True
    then have "re_match (Lit (d # w)) False s = Some (length (d # w), Map.empty)"
      by (simp add: lit_match)
    from re_subn_Some[OF this] True Cons.prems show ?thesis
      by (auto simp: prefix_def)
  next
    case False
    then have n: "re_match (Lit (d # w)) False s = None" by (simp add: lit_match)
    show ?thesis
    proof (cases s)
      case Nil
      then show ?thesis using n by (simp add: re_subn_Nil)
    next
      case (Cons c cs)
      then show ?thesis using n Cons.IH[of cs] Cons.prems by (simp add: re_subn_Cons)
    qed
  qed
qed

lemma method_sub_mark:
  assumes m: "list_all namec m" "foldl flag_next False m"
  shows "mark closers2 ok (fst (re_subn (method_pat m) (method_tpl m) False s)) = mark closers2 ok s"
proof (induction s arbitrary: ok rule: length_induct)
  case (1 s)
  let ?w = "''.'' @ m @ ''(pool)''"
  let ?rep = "''.'' @ m @ ''(&*pool)''"
  let ?R = "\<lambda>s. fst (re_subn (Lit ?w) [TLit ?rep] False s)"
  have np: "CHR ''('' \<notin> set (''.'' @ m)" using ic_no_paren[OF m(1)] by simp
  have fl: "foldl flag_next f (''.'' @ m)" for f
    using m(2) by (simp add: flag_next_def in_class_def ident_char_def)
  have head: "mark closers2 f ((''.'' @ m) @ t) = (''.'' @ m) @ mark closers2 True t" for f t
    using mark_skip[OF np, of closers2 f t] fl[of f] by simp
  have A: "mark closers2 f (?w @ t) = ?rep @ mark closers2 False t" for f t
  proof -
    have "mark closers2 f (?w @ t) = (''.'' @ m) @ mark closers2 True (''(pool)'' @ t)"
      using head[of f "''(pool)'' @ t"] by simp
    also have "mark closers2 True (''(pool)'' @ t) = ''(&*pool)'' @ mark closers2 False t"
      by (simp add: flag_next_def in_class_def ident_char_def ident_start_def)
    finally show ?thesis by simp
  qed
  have B: "mark closers2 f (?rep @ t) = ?rep @ mark closers2 False t" for f t
  proof -
    have "mark closers2 f (?rep @ t) = (''.'' @ m) @ mark closers2 True (''(&*pool)'' @ t)"
      using head[of f "''(&*pool)'' @ t"] by simp
    also have "mark closers2 True (''(&*pool)'' @ t) = ''(&*pool)'' @ mark closers2 False t"
      by (simp add: flag_next_def in_class_def ident_char_def ident_start_def)
    finally show ?thesis by simp
  qed
  show ?case
  proof (cases "prefix ?w s")
    case True
    then obtain rest where s: "s = ?w @ rest" by (auto simp: prefix_def)
    have "re_match (Lit ?w) False s = Some (length ?w, Map.empty)"
      using True by (simp add: lit_match)
    from re_subn_Some[OF this] have R: "?R s = ?rep @ ?R rest"
      by (simp add: s)
    have "length rest < length s" by (simp add: s)
    then have IH: "mark closers2 False (?R rest) = mark closers2 False rest"
      using 1 by (simp add: method_pat_def method_tpl_def)
    have "mark closers2 ok (?R s) = ?rep @ mark closers2 False (?R rest)"
      unfolding R by (rule B)
    also have "\<dots> = mark closers2 ok s" unfolding IH s by (rule A[symmetric])
    finally show ?thesis by (simp add: method_pat_def method_tpl_def)
  next
    case False
    then have n: "re_match (Lit ?w) False s = None" by (simp add: lit_match)
    show ?thesis
    proof (cases s)
      case Nil
      then show ?thesis using n by (simp add: re_subn_Nil method_pat_def method_tpl_def)
    next
      case (Cons c cs)
      have R: "?R s = c # ?R cs" using n unfolding Cons by (simp add: re_subn_Cons)
      have IH: "mark closers2 f (?R cs) = mark closers2 f cs" for f
        using 1 Cons by (simp add: method_pat_def method_tpl_def)
      have pre: "prefix v (?R cs) \<longleftrightarrow> prefix v cs" if "CHR ''.'' \<notin> set v" for v
        using lit_sub_prefix[OF that, of "m @ ''(pool)''" "m @ ''(&*pool)''" cs] by simp
      have "mark closers2 ok (?R s) = mark closers2 ok (c # cs)"
        unfolding R using IH pre[of "''pool,''"] pre[of "''pool)''"] by simp
      then show ?thesis using Cons by (simp add: method_pat_def method_tpl_def)
    qed
  qed
qed

lemma method_names:
  "list_all namec ''execute''" "foldl flag_next False ''execute''"
  "list_all namec ''fetch_one''" "foldl flag_next False ''fetch_one''"
  "list_all namec ''fetch_all''" "foldl flag_next False ''fetch_all''"
  "list_all namec ''fetch_optional''" "foldl flag_next False ''fetch_optional''"
  by (simp_all add: flag_next_def in_class_def ident_char_def ident_start_def)

lemma calls_mark:
  "re_sub (call_pat '')'') (call_tpl '')'') (re_sub (call_pat '','') (call_tpl '','') s) = mark closers2 False s"
  by (simp add: re_sub_def call_sub_mark mark_mark)

lemma substitute_mark: "substitute s = mark closers2 False s"
  unfolding substitute_def Let_def calls_mark
  by (simp add: re_sub_def method_sub_mark[OF method_names(1,2)]
      method_sub_mark[OF method_names(3,4)] method_sub_mark[OF method_names(5,6)]
      method_sub_mark[OF method_names(7,8)])

lemma mark_twice: "mark (A @ A) ok s = mark A ok s"
  by (induction s arbitrary: ok) (auto simp: list_ex_iff)

lemma mark_idem: "mark closers2 ok (mark closers2 ok s) = mark closers2 ok s"
proof -
  have "mark closers2 ok (mark closers2 ok s) = mark (closers2 @ closers2) ok s"
    by (rule mark_mark) simp
  then show ?thesis by (simp only: mark_twice)
qed

lemma length_mark: "length s \<le> length (mark cls ok s)"
proof (induction s arbitrary: ok)
  case Nil
  then show ?case by simp
next
  case (Cons c cs)
  show ?case by (auto simp: le_SucI Cons)
qed

lemma mark_same_length: "length (mark cls ok s) = length s \<Longrightarrow> mark cls ok s = s"
proof (induction s arbitrary: ok)
  case Nil
  then show ?case by simp
next
  case (Cons c cs)
  show ?case
    using Cons.prems Cons.IH[of "flag_next ok c"] length_mark[of cs cls "flag_next ok c"]
    by (auto split: if_splits)
qed

lemma subseq_mark: "subseq s (mark cls ok s)"
proof (induction s arbitrary: ok)
  case Nil
  then show ?case by simp
next
  case (Cons c cs)
  have "subseq cs (CHR ''&'' # CHR ''*'' # mark cls f cs)" for f
    by (intro list_emb_Cons) (rule Cons)
  then show ?case by (auto simp: Cons)
qed

section \<open>Rule lists, searches, files and the loop\<close>

lemma apply_rules_append: "apply_rules (xs @ ys) c = apply_rules ys (apply_rules xs c)"
  by (induction xs arbitrary: c) simp_all

lemma substitute_rules: "substitute content = apply_rules rules content"
  by (simp add: substitute_def rules_def)

lemma no_cross:
  assumes "v = ''pool,'' \<or> v = ''pool)''" "w = ''poolmanager'' \<or> w = ''mypool''"
  shows "prefix v (cs @ w @ b) = prefix v cs"
  using assms by (auto simp: prefix_append Cons_eq_append_conv)

lemma mark_barrier:
  assumes w: "w = ''poolmanager'' \<or> w = ''mypool''"
  shows "mark closers2 ok (a @ w @ b) = mark closers2 ok a @ w @ mark closers2 True b"
proof (induction a arbitrary: ok)
  case Nil
  show ?case using w by (auto simp: flag_next_def in_class_def ident_char_def ident_start_def)
next
  case (Cons c cs)
  show ?case using w no_cross[of _ w cs b] by (simp add: Cons)
qed

lemma map_of_update_file:
  "map_of (update_file p f xs) q = (if q = p then Some f else map_of xs q)"
  by (induction xs) auto

lemma re_match_adv_None: "re_match r False s = None \<Longrightarrow> re_match r adv s = None"
  by (auto simp: re_match_def split: list.splits)

lemma no_search_subn: "re_search r s = None \<Longrightarrow> re_subn r t adv s = (s, 0)"
proof (induction s arbitrary: adv)
  case Nil
  then show ?case by (simp add: re_subn_Nil re_match_adv_None)
next
  case (Cons c cs)
  from Cons.prems have m: "re_match r False (c # cs) = None" and s: "re_search r cs = None"
    by (auto split: option.splits)
  show ?case using re_subn_Cons[OF re_match_adv_None[OF m, of adv], of t] Cons.IH[OF s, of False]
    by simp
qed

lemma no_search_apply:
  "list_all (\<lambda>r. re_search (fst r) content = None) rs \<Longrightarrow> apply_rules rs content = content"
  by (induction rs) (simp_all add: re_sub_def no_search_subn)

lemma scenario_counts:
  "re_subn (method_pat ''execute'') (method_tpl ''execute'') False
       ''.execute(pool)\<newline>.fetch_one(pool)\<newline>''
     = (''.execute(&*pool)\<newline>.fetch_one(pool)\<newline>'', 1)"
  "re_subn (method_pat ''fetch_one'') (method_tpl ''fetch_one'') False
       ''.execute(&*pool)\<newline>.fetch_one(pool)\<newline>''
     = (''.execute(&*pool)\<newline>.fetch_one(&*pool)\<newline>'', 1)"
  "list_all (\<lambda>r. re_subn (fst r) (snd r) False ''.execute(&*pool)\<newline>.fetch_one(&*pool)\<newline>''
                   = (''.execute(&*pool)\<newline>.fetch_one(&*pool)\<newline>'', 0)) (drop 2 rules)"
  by code_simp+

lemma sub_examples:
  "substitute ''f(pool)'' = ''f(&*pool)''"
  "substitute ''g(pool)'' = ''g(&*pool)''"
  "substitute ''h(pool)'' = ''h(&*pool)''"
  "substitute ''g(mypool)'' = ''g(mypool)''"
  "substitute (CHR 0xC3 # CHR 0xA9 # '' h(pool)'') = CHR 0xC3 # CHR 0xA9 # '' h(&*pool)''"
  by (simp_all add: substitute_mark flag_next_def in_class_def ident_char_def ident_start_def)

lemma process_files_append:
  "process_files fs (ps @ qs) n
     = (case process_files fs ps n of
          (n1, fs1, out1) \<Rightarrow>
            (case process_files fs1 qs n1 of (n2, fs2, out2) \<Rightarrow> (n2, fs2, out1 @ out2)))"
proof (induction ps arbitrary: fs n)
  case Nil
  then show ?case by (simp split: prod.splits)
next
  case (Cons p ps)
  then show ?case by (simp split: prod.splits)
qed

section \<open>The claims\<close>

subsection \<open>The end-to-end scenario\<close>

text \<open>
  Claim C1. On the content \<^verbatim>\<open>.execute(pool)\n.fetch_one(pool)\n\<close> the six substitutions give
  \<^verbatim>\<open>.execute(&*pool)\n.fetch_one(&*pool)\n\<close>. The rule for \<^verbatim>\<open>.execute(pool)\<close> matches once,
  the rule for \<^verbatim>\<open>.fetch_one(pool)\<close> matches once on what the first rule left, and the four
  rules after them match nowhere. For a readable and writable file with that content,
  \<open>fix_pool_patterns\<close> returns \<open>True\<close>, prints the line \<open>Fixed\<close> and leaves the new content in
  the file.
\<close>

theorem end_to_end_scenario:
  assumes "map_of (files fs) p = Some f"
    and "contents f = ''.execute(pool)\<newline>.fetch_one(pool)\<newline>''"
    and "read_error f = None" and "open_error f = None" and "write_error f = None"
  shows "substitute ''.execute(pool)\<newline>.fetch_one(pool)\<newline>''
           = ''.execute(&*pool)\<newline>.fetch_one(&*pool)\<newline>''
       \<and> re_subn (method_pat ''execute'') (method_tpl ''execute'') False
             ''.execute(pool)\<newline>.fetch_one(pool)\<newline>''
           = (''.execute(&*pool)\<newline>.fetch_one(pool)\<newline>'', 1)
       \<and> re_subn (method_pat ''fetch_one'') (method_tpl ''fetch_one'') False
             ''.execute(&*pool)\<newline>.fetch_one(pool)\<newline>''
           = (''.execute(&*pool)\<newline>.fetch_one(&*pool)\<newline>'', 1)
       \<and> list_all (\<lambda>r. re_subn (fst r) (snd r) False ''.execute(&*pool)\<newline>.fetch_one(&*pool)\<newline>''
                          = (''.execute(&*pool)\<newline>.fetch_one(&*pool)\<newline>'', 0)) (drop 2 rules)
       \<and> fix_pool_patterns fs p
           = (True,
              fs\<lparr>files := update_file p
                   (f\<lparr>contents := ''.execute(&*pool)\<newline>.fetch_one(&*pool)\<newline>'',
                      mtime := Suc (mtime f)\<rparr>) (files fs)\<rparr>,
              [Fixed p])
       \<and> read_text (fst (snd (fix_pool_patterns fs p))) p
           = Inr ''.execute(&*pool)\<newline>.fetch_one(&*pool)\<newline>''"
proof -
  have s: "substitute ''.execute(pool)\<newline>.fetch_one(pool)\<newline>''
           = ''.execute(&*pool)\<newline>.fetch_one(&*pool)\<newline>''"
    by (simp add: substitute_mark flag_next_def in_class_def ident_char_def ident_start_def)
  have f: "fix_pool_patterns fs p
           = (True,
              fs\<lparr>files := update_file p
                   (f\<lparr>contents := ''.execute(&*pool)\<newline>.fetch_one(&*pool)\<newline>'',
                      mtime := Suc (mtime f)\<rparr>) (files fs)\<rparr>,
              [Fixed p])"
    using assms by (simp add: fix_pool_patterns_def read_text_def write_text_def s)
  have "read_text (fst (snd (fix_pool_patterns fs p))) p
           = Inr ''.execute(&*pool)\<newline>.fetch_one(&*pool)\<newline>''"
    using assms(3) by (simp add: f read_text_def map_of_update_file)
  with s f scenario_counts show ?thesis by simp
qed

text \<open>
  The scenario at a file system with one such file.
\<close>

theorem end_to_end_scenario_witness:
  "fix_pool_patterns scenario_fs ''src/db.rs''
     = (True,
        \<lparr>files = [(''src/db.rs'',
                   \<lparr>contents = ''.execute(&*pool)\<newline>.fetch_one(&*pool)\<newline>'', mtime = 1,
                    read_error = None, open_error = None, write_error = None\<rparr>)],
         dirs = [''src'']\<rparr>,
        [Fixed ''src/db.rs''])"
  using end_to_end_scenario[of scenario_fs "''src/db.rs''"
      "\<lparr>contents = ''.execute(pool)\<newline>.fetch_one(pool)\<newline>'', mtime = 0,
        read_error = None, open_error = None, write_error = None\<rparr>"]
  by (simp add: scenario_fs_def)

subsection \<open>Idempotence\<close>

text \<open>
  Claim C2. The rewrite is idempotent: on every content, the six substitutions applied
  twice give what they give applied once.
\<close>

theorem substitute_idempotent: "substitute (substitute content) = substitute content"
  by (simp only: substitute_mark mark_idem)

subsection \<open>The order of the rules\<close>

text \<open>
  Claim C3. The rules are applied in the order listed, each on the content the rules
  before it produced: the content computed by the source is the rule list applied in
  turn, and for every \<open>i\<close> it is the rules from \<open>i\<close> on applied to the result of the first
  \<open>i\<close> rules. A later rule therefore sees only rewritten text: alone, the last rule matches
  \<^verbatim>\<open>.execute(pool)\<close> once; after the five rules before it, it matches nowhere in what they
  made of the same content.
\<close>

theorem rules_in_order:
  "substitute content = apply_rules rules content
   \<and> (\<forall>i. apply_rules rules content = apply_rules (drop i rules) (apply_rules (take i rules) content))
   \<and> snd (re_subn (call_pat '')'') (call_tpl '')'') False ''.execute(pool)'') = 1
   \<and> snd (re_subn (call_pat '')'') (call_tpl '')'') False
            (apply_rules (take 5 rules) ''.execute(pool)'')) = 0"
proof -
  have a: "apply_rules rules content = apply_rules (drop i rules) (apply_rules (take i rules) content)" for i
    using apply_rules_append[of "take i rules" "drop i rules" content] by simp
  have b: "snd (re_subn (call_pat '')'') (call_tpl '')'') False ''.execute(pool)'') = 1"
    by code_simp
  have c: "snd (re_subn (call_pat '')'') (call_tpl '')'') False
            (apply_rules (take 5 rules) ''.execute(pool)'')) = 0"
    by code_simp
  show ?thesis using a b c substitute_rules by blast
qed

subsection \<open>Conservation\<close>

text \<open>
  Claim C4. When no pattern of the six rules matches anywhere in the content of a readable
  file, the rewritten content is the content itself, \<open>fix_pool_patterns\<close> returns \<open>False\<close>
  and prints nothing, and the file system afterwards is the file system before: no file is
  opened for writing, every content and every modification count is unchanged.
\<close>

theorem unmatched_file_untouched:
  assumes "read_text fs p = Inr content"
    and "list_all (\<lambda>r. re_search (fst r) content = None) rules"
  shows "substitute content = content \<and> fix_pool_patterns fs p = (False, fs, [])"
proof -
  have "substitute content = content"
    using no_search_apply[OF assms(2)] by (simp add: substitute_rules)
  then show ?thesis using assms(1) by (simp add: fix_pool_patterns_def)
qed

text \<open>
  A file with the content \<^verbatim>\<open>foo(mypool)\<close>, which no pattern matches.
\<close>

theorem unmatched_file_untouched_witness:
  "substitute ''foo(mypool)'' = ''foo(mypool)''
   \<and> fix_pool_patterns untouched_fs ''src/lib.rs'' = (False, untouched_fs, [])"
proof -
  have r: "read_text untouched_fs ''src/lib.rs'' = Inr ''foo(mypool)''"
    by (simp add: read_text_def untouched_fs_def)
  have n: "list_all (\<lambda>r. re_search (fst r) ''foo(mypool)'' = None) rules"
    by code_simp
  show ?thesis using unmatched_file_untouched[OF r n] .
qed

subsection \<open>Longer names\<close>

text \<open>
  Claim C5. The rules leave \<open>poolmanager\<close> and \<open>mypool\<close> alone. Wherever one of the two
  names stands in a content, the result is the rewritten text before the name, the name
  itself, and behind it what the rewrite makes of the name and the text after it: nothing
  is inserted into the name or next to it, and the name does not change how the text before
  it is rewritten. The calls \<^verbatim>\<open>foo(poolmanager)\<close> and \<^verbatim>\<open>foo(mypool)\<close> are unchanged, while
  \<^verbatim>\<open>foo(pool)\<close> is rewritten.
\<close>

theorem longer_names_untouched:
  "substitute (a @ ''poolmanager'' @ b)
     = substitute a @ ''poolmanager'' @ drop (length ''poolmanager'') (substitute (''poolmanager'' @ b))
   \<and> substitute (a @ ''mypool'' @ b)
     = substitute a @ ''mypool'' @ drop (length ''mypool'') (substitute (''mypool'' @ b))
   \<and> substitute ''foo(poolmanager)'' = ''foo(poolmanager)''
   \<and> substitute ''foo(mypool)'' = ''foo(mypool)''
   \<and> substitute ''foo(pool)'' = ''foo(&*pool)''"
proof -
  have w: "mark closers2 False (a @ w @ b)
      = mark closers2 False a @ w @ drop (length w) (mark closers2 False (w @ b))"
    if "w = ''poolmanager'' \<or> w = ''mypool''" for w
    using mark_barrier[OF that, of False a b] mark_barrier[OF that, of False "[]" b] by simp
  have e: "substitute ''foo(poolmanager)'' = ''foo(poolmanager)''"
    "substitute ''foo(mypool)'' = ''foo(mypool)''"
    "substitute ''foo(pool)'' = ''foo(&*pool)''"
    by (simp_all add: substitute_mark flag_next_def in_class_def ident_char_def ident_start_def)
  show ?thesis using w[of "''poolmanager''"] w[of "''mypool''"] e
    unfolding substitute_mark by blast
qed

subsection \<open>A write that fails\<close>

text \<open>
  Claim C6 says that a write failing partway leaves the file as it was. It does not: the
  source opens the file with mode \<open>w\<close>, which truncates it, and writes in place. Here the
  write of \<^verbatim>\<open>f(&*pool)\<close> over \<^verbatim>\<open>f(pool)\<close> fails after two units, and the file is left
  holding \<^verbatim>\<open>f(\<close>. A second write fails inside the two units of a character beyond ASCII,
  and the file it leaves cannot even be read.
\<close>

theorem failed_write_loses_original:
  "map_option contents (map_of (files failing_write_fs) ''src/a.rs'') = Some ''f(pool)''
   \<and> map_option write_error (map_of (files failing_write_fs) ''src/a.rs'') = Some (Some (2, OSError))
   \<and> fst (fix_pool_patterns failing_write_fs ''src/a.rs'') = False
   \<and> map_option contents
         (map_of (files (fst (snd (fix_pool_patterns failing_write_fs ''src/a.rs''))))
            ''src/a.rs'') = Some ''f(''
   \<and> read_text failing_write_fs ''src/c.rs'' = Inr ([CHR 0xC3, CHR 0xA9] @ '' h(pool)'')
   \<and> fst (fix_pool_patterns failing_write_fs ''src/c.rs'') = False
   \<and> read_text (fst (snd (fix_pool_patterns failing_write_fs ''src/c.rs''))) ''src/c.rs''
       = Inl UnicodeDecodeError"
  by (simp add: failing_write_fs_def fix_pool_patterns_def read_text_def write_text_def
      sub_examples utf8_len_def utf8_tail_ok_def utf8_second_def)

text \<open>
  Claim C6, amended. When the file is readable, its rewritten content differs, and the
  write raises after \<open>n\<close> units have reached the file, \<open>fix_pool_patterns\<close> catches the
  error, prints it and returns \<open>False\<close>; the file then holds the first \<open>n\<close> units of the new
  content, and every other file is as before. Reading the file again gives that part of
  the new content when it decodes, and raises \<^verbatim>\<open>UnicodeDecodeError\<close> when the write was
  cut inside a character. The original content survives only when opening the file for
  writing is what fails.
\<close>

theorem failed_write_leaves_prefix:
  assumes "map_of (files fs) p = Some f" and "read_error f = None"
    and "substitute (contents f) \<noteq> contents f"
  shows "(open_error f = None \<and> write_error f = Some (n, e) \<longrightarrow>
            fix_pool_patterns fs p
              = (False,
                 fs\<lparr>files := update_file p
                      (f\<lparr>contents := take n (substitute (contents f)), mtime := Suc (mtime f),
                         read_error :=
                           (if utf8_valid (take n (substitute (contents f))) then None
                            else Some UnicodeDecodeError)\<rparr>)
                      (files fs)\<rparr>,
                 [Error_processing p e])
            \<and> map_option contents (map_of (files (fst (snd (fix_pool_patterns fs p)))) p)
                = Some (take n (substitute (contents f)))
            \<and> read_text (fst (snd (fix_pool_patterns fs p))) p
                = (if utf8_valid (take n (substitute (contents f)))
                   then Inr (take n (substitute (contents f)))
                   else Inl UnicodeDecodeError)
            \<and> (\<forall>q. q \<noteq> p \<longrightarrow>
                 map_of (files (fst (snd (fix_pool_patterns fs p)))) q = map_of (files fs) q))
       \<and> (open_error f = Some e \<longrightarrow>
            fix_pool_patterns fs p = (False, fs, [Error_processing p e]))"
  using assms
  by (auto simp: fix_pool_patterns_def read_text_def write_text_def map_of_update_file)

text \<open>
  The three cases at a file system with one file of each kind: a write cut between
  characters, a file that cannot be opened for writing, and a write cut inside a character.
\<close>

theorem failed_write_leaves_prefix_witness:
  "fix_pool_patterns failing_write_fs ''src/a.rs''
     = (False,
        failing_write_fs\<lparr>files := update_file ''src/a.rs''
            \<lparr>contents = ''f('', mtime = 1, read_error = None,
              open_error = None, write_error = Some (2, OSError)\<rparr> (files failing_write_fs)\<rparr>,
        [Error_processing ''src/a.rs'' OSError])
   \<and> read_text (fst (snd (fix_pool_patterns failing_write_fs ''src/a.rs''))) ''src/a.rs'' = Inr ''f(''
   \<and> fix_pool_patterns failing_write_fs ''src/b.rs''
     = (False, failing_write_fs, [Error_processing ''src/b.rs'' PermissionError])
   \<and> map_option contents
         (map_of (files (fst (snd (fix_pool_patterns failing_write_fs ''src/c.rs''))))
            ''src/c.rs'') = Some [CHR 0xC3]
   \<and> read_text (fst (snd (fix_pool_patterns failing_write_fs ''src/c.rs''))) ''src/c.rs''
       = Inl UnicodeDecodeError"
proof -
  show ?thesis
    using failed_write_leaves_prefix[of failing_write_fs "''src/a.rs''"
        "\<lparr>contents = ''f(pool)'', mtime = 0, read_error = None,
          open_error = None, write_error = Some (2, OSError)\<rparr>" 2 OSError]
      failed_write_leaves_prefix[of failing_write_fs "''src/b.rs''"
        "\<lparr>contents = ''g(pool)'', mtime = 0, read_error = None,
          open_error = Some PermissionError, write_error = None\<rparr>" 0 PermissionError]
      failed_write_leaves_prefix[of failing_write_fs "''src/c.rs''"
        "\<lparr>contents = [CHR 0xC3, CHR 0xA9] @ '' h(pool)'', mtime = 0, read_error = None,
          open_error = None, write_error = Some (1, OSError)\<rparr>" 1 OSError]
    by (simp add: failing_write_fs_def sub_examples read_text_def
        utf8_len_def utf8_tail_ok_def utf8_second_def)
qed

subsection \<open>A file that cannot be read\<close>

text \<open>
  Claim C7 says that a file whose processing raises is recorded with a status of its own.
  The source has no such status: \<open>fix_pool_patterns\<close> returns \<open>False\<close> for the file that
  cannot be read, as it does for a file it leaves unchanged, and only the printed line tells
  the two apart.
\<close>

theorem errored_returns_like_unchanged:
  "read_text unreadable_fs (src_dir @ ''/a.rs'') = Inl PermissionError
   \<and> fix_pool_patterns unreadable_fs (src_dir @ ''/a.rs'')
       = (False, unreadable_fs, [Error_processing (src_dir @ ''/a.rs'') PermissionError])
   \<and> fix_pool_patterns unreadable_fs (src_dir @ ''/b.rs'') = (False, unreadable_fs, [])
   \<and> fst (fix_pool_patterns unreadable_fs (src_dir @ ''/a.rs''))
       = fst (fix_pool_patterns unreadable_fs (src_dir @ ''/b.rs''))"
  by (simp add: unreadable_fs_def fix_pool_patterns_def read_text_def sub_examples src_dir_def)

text \<open>
  Claim C7, amended. When reading a file raises, the error is caught inside
  \<open>fix_pool_patterns\<close>, which prints the line \<open>Error processing\<close>, returns \<open>False\<close> (the value
  it returns for an unchanged file) and leaves the file system as it was. The loop of
  \<open>main\<close> goes on: after any files, whatever happened to them, the next file and all files
  after it are processed, and behind a file that could not be read the remaining files are
  processed exactly as if it had not been listed, but for its error line.
\<close>

theorem read_error_isolated:
  assumes "read_text fs p = Inl e"
  shows "fix_pool_patterns fs p = (False, fs, [Error_processing p e])
       \<and> process_files fs (before @ p # rest) fixed_count
           = (case process_files fs before fixed_count of
                (n1, fs1, out1) \<Rightarrow>
                  (case fix_pool_patterns fs1 p of
                     (fixed, fs2, out2) \<Rightarrow>
                       (case process_files fs2 rest (if fixed then n1 + 1 else n1) of
                          (n3, fs3, out3) \<Rightarrow> (n3, fs3, out1 @ out2 @ out3))))
       \<and> process_files fs (p # rest) fixed_count
           = (case process_files fs rest fixed_count of
                (n, fs', out) \<Rightarrow> (n, fs', Error_processing p e # out))"
  using assms by (simp add: fix_pool_patterns_def process_files_append split: prod.splits)

text \<open>
  A run of \<open>main\<close> over three files, the first of which cannot be read.
\<close>

theorem read_error_isolated_witness:
  "main unreadable_fs
     = (unreadable_fs\<lparr>files := update_file (src_dir @ ''/c.rs'')
            \<lparr>contents = ''h(&*pool)'', mtime = 1, read_error = None,
              open_error = None, write_error = None\<rparr> (files unreadable_fs)\<rparr>,
        [Found_rust_files 3,
         Error_processing (src_dir @ ''/a.rs'') PermissionError,
         Fixed (src_dir @ ''/c.rs''),
         Fixed_files 1])"
proof -
  have r: "read_text unreadable_fs (src_dir @ ''/a.rs'') = Inl PermissionError"
    by (simp add: unreadable_fs_def read_text_def)
  have g: "rglob_rs unreadable_fs src_dir = [src_dir @ ''/a.rs'', src_dir @ ''/b.rs'', src_dir @ ''/c.rs'']"
    by (simp add: rglob_rs_def unreadable_fs_def suffix_def)
  have e: "path_exists unreadable_fs src_dir"
    by (simp add: path_exists_def unreadable_fs_def)
  have b: "fix_pool_patterns unreadable_fs (src_dir @ ''/b.rs'') = (False, unreadable_fs, [])"
    by (simp add: unreadable_fs_def fix_pool_patterns_def read_text_def sub_examples src_dir_def)
  have c: "fix_pool_patterns unreadable_fs (src_dir @ ''/c.rs'')
     = (True, unreadable_fs\<lparr>files := update_file (src_dir @ ''/c.rs'')
            \<lparr>contents = ''h(&*pool)'', mtime = 1, read_error = None,
              open_error = None, write_error = None\<rparr> (files unreadable_fs)\<rparr>, [Fixed (src_dir @ ''/c.rs'')])"
    by (simp add: unreadable_fs_def fix_pool_patterns_def read_text_def write_text_def sub_examples src_dir_def)
  show ?thesis
    using read_error_isolated[OF r, where before = "[]"
        and rest = "[src_dir @ ''/b.rs'', src_dir @ ''/c.rs'']" and fixed_count = 0]
    by (simp add: main_def e g b c)
qed

subsection \<open>A missing source directory\<close>

text \<open>
  Claim C8 says that a missing source directory makes the run fail hard. The source only
  prints and returns: the script run on a file system without the directory ends with exit
  status 0 and raises nothing, exactly as a run over an existing directory does.
\<close>

theorem missing_root_exits_normally:
  "\<not> path_exists rootless_fs src_dir
   \<and> run_script rootless_fs = (0, rootless_fs, [Source_directory_not_found src_dir])
   \<and> path_exists bare_root_fs src_dir
   \<and> run_script bare_root_fs = (0, bare_root_fs, [Found_rust_files 0, Fixed_files 0])
   \<and> fst (run_script rootless_fs) = fst (run_script bare_root_fs)"
  by (simp add: run_script_def main_def path_exists_def rootless_fs_def bare_root_fs_def
      rglob_rs_def src_dir_def)

text \<open>
  Claim C8, amended. When the source directory does not exist, \<open>main\<close> reports it with the
  line \<open>Source directory not found\<close> and returns at once, normally: the file system is
  unchanged, no file is listed, read or written, nothing else is printed, and the script
  ends with exit status 0.
\<close>

theorem missing_root_aborts:
  assumes "\<not> path_exists fs src_dir"
  shows "main fs = (fs, [Source_directory_not_found src_dir])
       \<and> run_script fs = (0, fs, [Source_directory_not_found src_dir])"
  using assms by (simp add: main_def run_script_def)

text \<open>
  A file system without the source directory.
\<close>

theorem missing_root_aborts_witness:
  "main rootless_fs = (rootless_fs, [Source_directory_not_found src_dir])
   \<and> run_script rootless_fs = (0, rootless_fs, [Source_directory_not_found src_dir])"
proof -
  have "\<not> path_exists rootless_fs src_dir"
    by (simp add: path_exists_def rootless_fs_def src_dir_def)
  then show ?thesis by (rule missing_root_aborts)
qed

subsection \<open>The method rules are redundant\<close>

text \<open>
  Claim C9. The four substitutions for \<^verbatim>\<open>.execute(pool)\<close>, \<^verbatim>\<open>.fetch_one(pool)\<close>,
  \<^verbatim>\<open>.fetch_all(pool)\<close> and \<^verbatim>\<open>.fetch_optional(pool)\<close> are subsumed by the two call
  substitutions: on every content, the two call substitutions alone give the content that
  all six give in the listed order.
\<close>

theorem calls_subsume_methods:
  "re_sub (call_pat '')'') (call_tpl '')'') (re_sub (call_pat '','') (call_tpl '','') content)
     = substitute content"
  by (simp add: calls_mark substitute_mark)

subsection \<open>Only insertions\<close>

text \<open>
  Claim C10. The rewrite only inserts text: on every content the result is at least as
  long as the content, it is strictly longer exactly when it differs from the content,
  and the content is a subsequence of the result (nothing is deleted).
\<close>

theorem substitute_only_inserts:
  "length content \<le> length (substitute content)
   \<and> (length content < length (substitute content)) = (substitute content \<noteq> content)
   \<and> subseq content (substitute content)"
proof -
  have "(length (mark closers2 False content) = length content) = (mark closers2 False content = content)"
    using mark_same_length[of closers2 False content] by auto
  then show ?thesis
    using length_mark[of content closers2 False] subseq_mark[of content closers2 False]
    unfolding substitute_mark by linarith
qed

end
